theory Spec2Isabelle
  imports Complex_Main "HOL-Library.Word"
begin

unbundle bit_operations_syntax

section \<open>Shared data model\<close>

text \<open>
  A \<open>Uint8Array\<close> is a list of 8-bit words. Reading a typed array out of range gives
  \<open>undefined\<close> in JavaScript; every such read in this code base ends in a bitwise operator
  or in the element conversion of \<open>new Uint8Array(...)\<close>, and both turn \<open>undefined\<close>
  into 0. \<open>byteAt\<close> is that read.
\<close>

type_synonym byte = "8 word"

datatype js_error = TypeError | RangeError

definition byteAt :: "byte list \<Rightarrow> nat \<Rightarrow> byte" where
  "byteAt bytes i = (if i < length bytes then bytes ! i else 0)"

text \<open>\<open>bytes.slice(start, end)\<close> for \<open>0 \<le> start \<le> end\<close>.\<close>

definition slice :: "'a list \<Rightarrow> nat \<Rightarrow> nat \<Rightarrow> 'a list" where
  "slice xs start end = take (end - start) (drop start xs)"

section \<open>Compression engine (js/compression.js, class HMQCCompressor)\<close>

subsection \<open>Run-length pass\<close>

text \<open>
  The inner \<open>while\<close> of \<open>runLengthEncode\<close> counts the repetitions of \<open>bytes[i]\<close>, at
  most 255. Both \<open>while\<close> loops of the encoder are option-valued: \<open>None\<close> is a loop
  that does not return.
\<close>

partial_function (option) countRun :: "byte list \<Rightarrow> nat \<Rightarrow> nat \<Rightarrow> nat option" where
  "countRun bytes i count =
     (if i + count < length bytes \<and> bytes ! (i + count) = bytes ! i \<and> count < 255
      then countRun bytes i (count + 1)
      else Some count)"

declare countRun.simps [code]

partial_function (option) runLengthEncode_loop ::
  "byte list \<Rightarrow> nat \<Rightarrow> byte list \<Rightarrow> byte list option" where
  "runLengthEncode_loop bytes i result =
     (if i < length bytes
      then Option.bind (countRun bytes i 1) (\<lambda>count.
        if count > 3
        then runLengthEncode_loop bytes (i + count) (result @ [0xFE, of_nat count, bytes ! i])
        else if bytes ! i = 0xFE
          then runLengthEncode_loop bytes (i + 1) (result @ [0xFE, 1, 0xFE])
          else runLengthEncode_loop bytes (i + 1) (result @ [bytes ! i]))
      else Some result)"

declare runLengthEncode_loop.simps [code]

definition runLengthEncode :: "byte list \<Rightarrow> byte list option" where
  "runLengthEncode bytes = runLengthEncode_loop bytes 0 []"

text \<open>
  \<open>runLengthDecode\<close>: the \<open>for\<close> loop advances by one, and by two more inside the
  escape branch. The escape branch is taken only when two more bytes follow the sentinel;
  otherwise the byte is copied.
\<close>

function runLengthDecode_loop :: "byte list \<Rightarrow> nat \<Rightarrow> byte list \<Rightarrow> byte list" where
  "runLengthDecode_loop compressed i result =
     (if i < length compressed
      then (if compressed ! i = 0xFE \<and> i + 2 < length compressed
            then runLengthDecode_loop compressed (i + 3)
                   (result @ replicate (unat (compressed ! (i + 1))) (compressed ! (i + 2)))
            else runLengthDecode_loop compressed (i + 1) (result @ [compressed ! i]))
      else result)"
  by pat_completeness auto
termination
  by (relation "measure (\<lambda>(c, i, r). length c - i)") auto

declare runLengthDecode_loop.simps [simp del]

definition runLengthDecode :: "byte list \<Rightarrow> byte list" where
  "runLengthDecode compressed = runLengthDecode_loop compressed 0 []"

subsection \<open>Text mode\<close>

definition dictionary :: "(string \<times> byte) list" where
  "dictionary =
     [(''the'', 0x80), (''and'', 0x81), (''for'', 0x82), (''are'', 0x83),
      (''but'', 0x84), (''not'', 0x85), (''you'', 0x86), (''all'', 0x87),
      (''can'', 0x88), (''her'', 0x89), (''was'', 0x8A), (''one'', 0x8B),
      (''our'', 0x8C), (''out'', 0x8D), (''day'', 0x8E), (''get'', 0x8F),
      (''has'', 0x90), (''him'', 0x91), (''his'', 0x92), (''how'', 0x93),
      (''its'', 0x94), (''may'', 0x95), (''new'', 0x96), (''now'', 0x97),
      (''old'', 0x98), (''see'', 0x99), (''two'', 0x9A), (''way'', 0x9B),
      (''who'', 0x9C), (''boy'', 0x9D), (''did'', 0x9E), (''she'', 0x9F)]"

definition reverseDict :: "(byte \<times> string) list" where
  "reverseDict = map (\<lambda>(w, c). (c, w)) dictionary"

text \<open>\<open>String.fromCharCode(...bytes)\<close>: one character per byte.\<close>

definition fromCharCode :: "byte list \<Rightarrow> string" where
  "fromCharCode bytes = map (\<lambda>b. char_of (unat b)) bytes"

text \<open>
  The inner \<open>for (len = 3; len >= 2; len--)\<close> of \<open>compressText\<close> and the inner
  \<open>for (len = 5; len >= 3; len--)\<close> of \<open>encodeFrequentPatterns\<close>: the first length,
  in the order tried, for which the slice fits and the table has it.
\<close>

fun firstMatch :: "(byte list \<Rightarrow> byte option) \<Rightarrow> byte list \<Rightarrow> nat \<Rightarrow> nat list \<Rightarrow> (nat \<times> byte) option" where
  "firstMatch table bytes i [] = None"
| "firstMatch table bytes i (len # lens) =
     (if i + len \<le> length bytes
      then (case table (slice bytes i (i + len)) of
              Some code \<Rightarrow> Some (len, code)
            | None \<Rightarrow> firstMatch table bytes i lens)
      else firstMatch table bytes i lens)"

partial_function (option) compressText_loop ::
  "byte list \<Rightarrow> nat \<Rightarrow> byte list \<Rightarrow> byte list option" where
  "compressText_loop bytes i result =
     (if i < length bytes
      then (case firstMatch (\<lambda>s. map_of dictionary (fromCharCode s)) bytes i [3, 2] of
              Some (len, code) \<Rightarrow> compressText_loop bytes (i + len) (result @ [code])
            | None \<Rightarrow> compressText_loop bytes (i + 1) (result @ [bytes ! i]))
      else Some result)"

declare compressText_loop.simps [code]

text \<open>
  \<open>compressText\<close> starts with \<open>new TextEncoder().encode(text)\<close>, a platform call. The
  model takes it as the parameter \<open>encodeText\<close>.
\<close>

definition compressText :: "('t \<Rightarrow> byte list) \<Rightarrow> 't \<Rightarrow> byte list option" where
  "compressText encodeText text = compressText_loop (encodeText text) 0 []"

text \<open>
  A value returned by \<open>decompress\<close>: a \<open>Uint8Array\<close>, or, in text mode, the string that
  \<open>new TextDecoder().decode\<close> makes of the given bytes.
\<close>

datatype js_data = Uint8Array "byte list" | DecodedText "byte list"

definition decompressText :: "byte list \<Rightarrow> js_data" where
  "decompressText compressed =
     DecodedText (concat (map (\<lambda>b. case map_of reverseDict b of
                                  Some w \<Rightarrow> map (\<lambda>c. of_nat (of_char c)) w
                                | None \<Rightarrow> [b]) compressed))"

subsection \<open>Binary mode\<close>

text \<open>
  The \<open>patterns\<close> map of \<open>encodeFrequentPatterns\<close> keeps insertion order, which the
  later sort and \<open>slice(0, 16)\<close> depend on: an association list. Its keys are the
  strings \<open>seq.join(',')\<close>; two slices have the same key exactly when they are equal, so
  the slice itself is the key here.
\<close>

fun bump :: "(byte list \<times> nat) list \<Rightarrow> byte list \<Rightarrow> (byte list \<times> nat) list" where
  "bump [] seq = [(seq, 1)]"
| "bump ((k, c) # ps) seq = (if k = seq then (k, c + 1) # ps else (k, c) # bump ps seq)"

definition countPatterns :: "byte list \<Rightarrow> (byte list \<times> nat) list" where
  "countPatterns bytes =
     fold (\<lambda>len patterns.
             fold (\<lambda>i patterns. bump patterns (slice bytes i (i + len)))
                  [0 ..< Suc (length bytes) - len] patterns)
          [5, 4, 3] []"

text \<open>
  \<open>filter(count > 3).sort((a, b) => b[1] - a[1]).slice(0, 16)\<close>; the sort is stable, as
  \<open>sort_key\<close> is.
\<close>

definition topPatterns :: "byte list \<Rightarrow> (byte list \<times> nat) list" where
  "topPatterns bytes =
     take 16 (sort_key (\<lambda>(p, c). - int c) (filter (\<lambda>(p, c). c > 3) (countPatterns bytes)))"

definition encodeMap :: "(byte list \<times> nat) list \<Rightarrow> (byte list \<times> byte) list" where
  "encodeMap tops = map (\<lambda>(index, (pattern, c)). (pattern, 0xA0 + of_nat index))
                        (zip [0 ..< length tops] tops)"

partial_function (option) encodeFrequentPatterns_loop ::
  "(byte list \<times> byte) list \<Rightarrow> byte list \<Rightarrow> nat \<Rightarrow> byte list \<Rightarrow> byte list option" where
  "encodeFrequentPatterns_loop emap bytes i result =
     (if i < length bytes
      then (case firstMatch (map_of emap) bytes i [5, 4, 3] of
              Some (len, code) \<Rightarrow> encodeFrequentPatterns_loop emap bytes (i + len) (result @ [code])
            | None \<Rightarrow> encodeFrequentPatterns_loop emap bytes (i + 1) (result @ [bytes ! i]))
      else Some result)"

declare encodeFrequentPatterns_loop.simps [code]

text \<open>
  The in-band dictionary is \<open>topPatterns.map(([_, code]) => code)\<close>, the second
  component of each entry, which is its count (stored in a \<open>Uint8Array\<close>, so modulo
  256), followed by 0xFF.
\<close>

definition encodeFrequentPatterns :: "byte list \<Rightarrow> byte list option" where
  "encodeFrequentPatterns bytes =
     (let tops = topPatterns bytes in
      map_option (\<lambda>result. (map (\<lambda>(p, c). of_nat c) tops @ [0xFF]) @ result)
                 (encodeFrequentPatterns_loop (encodeMap tops) bytes 0 []))"

function dictEnd_loop :: "byte list \<Rightarrow> nat \<Rightarrow> nat" where
  "dictEnd_loop compressed dictEnd =
     (if dictEnd < length compressed \<and> compressed ! dictEnd \<noteq> 0xFF
      then dictEnd_loop compressed (dictEnd + 1)
      else dictEnd)"
  by pat_completeness auto
termination
  by (relation "measure (\<lambda>(c, d). length c - d)") auto

declare dictEnd_loop.simps [simp del]

definition decodeFrequentPatterns :: "byte list \<Rightarrow> byte list" where
  "decodeFrequentPatterns compressed =
     concat (map (\<lambda>b. if 0xA0 \<le> b \<and> b \<le> 0xAF then [0, 0, 0] else [b])
                 (drop (dictEnd_loop compressed 0 + 1) compressed))"

definition compressBinary :: "byte list \<Rightarrow> byte list option" where
  "compressBinary bytes =
     encodeFrequentPatterns
       (byteAt bytes 0 # map (\<lambda>i. bytes ! i - bytes ! (i - 1)) [1 ..< length bytes])"

function decompressBinary_loop :: "byte list \<Rightarrow> nat \<Rightarrow> byte list \<Rightarrow> byte list" where
  "decompressBinary_loop delta i bytes =
     (if i < length delta
      then decompressBinary_loop delta (i + 1) (bytes @ [byteAt bytes (i - 1) + delta ! i])
      else bytes)"
  by pat_completeness auto
termination
  by (relation "measure (\<lambda>(d, i, b). length d - i)") auto

declare decompressBinary_loop.simps [simp del]

definition decompressBinary :: "byte list \<Rightarrow> byte list" where
  "decompressBinary compressed =
     (let delta = decodeFrequentPatterns compressed
      in decompressBinary_loop delta 1 [byteAt delta 0])"

subsection \<open>Image and audio modes\<close>

definition compressImageData :: "byte list \<Rightarrow> byte list option" where
  "compressImageData bytes = compressBinary bytes"

definition decompressImageData :: "byte list \<Rightarrow> byte list" where
  "decompressImageData compressed = decompressBinary compressed"

text \<open>\<open>lo | (hi << 8)\<close>, a 16-bit sample.\<close>

definition sample16 :: "byte \<Rightarrow> byte \<Rightarrow> 16 word" where
  "sample16 lo hi = ucast lo OR push_bit 8 (ucast hi)"

function compressAudioData_loop :: "byte list \<Rightarrow> nat \<Rightarrow> byte list \<Rightarrow> byte list" where
  "compressAudioData_loop bytes i result =
     (if i < length bytes
      then (let sample = sample16 (byteAt bytes i) (byteAt bytes (i + 1));
                prev = sample16 (byteAt bytes (i - 2)) (byteAt bytes (i - 1));
                delta = sample - prev
            in compressAudioData_loop bytes (i + 2)
                 (result @ [ucast (delta AND 0xFF), ucast (drop_bit 8 delta)]))
      else result)"
  by pat_completeness auto
termination
  by (relation "measure (\<lambda>(b, i, r). length b - i)") auto

declare compressAudioData_loop.simps [simp del]

definition compressAudioData :: "byte list \<Rightarrow> byte list option" where
  "compressAudioData bytes =
     compressBinary (compressAudioData_loop bytes 2 [byteAt bytes 0, byteAt bytes 1])"

function decompressAudioData_loop :: "byte list \<Rightarrow> nat \<Rightarrow> byte list \<Rightarrow> byte list" where
  "decompressAudioData_loop delta i result =
     (if i < length delta
      then (let deltaVal = sample16 (byteAt delta i) (byteAt delta (i + 1));
                prev = sample16 (byteAt result (i - 2)) (byteAt result (i - 1));
                sample = prev + deltaVal
            in decompressAudioData_loop delta (i + 2)
                 (result @ [ucast (sample AND 0xFF), ucast (drop_bit 8 sample)]))
      else result)"
  by pat_completeness auto
termination
  by (relation "measure (\<lambda>(d, i, r). length d - i)") auto

declare decompressAudioData_loop.simps [simp del]

definition decompressAudioData :: "byte list \<Rightarrow> byte list" where
  "decompressAudioData compressed =
     (let delta = decompressBinary compressed
      in decompressAudioData_loop delta 2 [byteAt delta 0, byteAt delta 1])"

subsection \<open>Entry points\<close>

text \<open>
  \<open>dataType\<close> is a JavaScript string; the \<open>switch\<close> sends every value other than
  \<open>'text'\<close>, \<open>'image'\<close> and \<open>'audio'\<close> to the binary branch.
\<close>

definition compress :: "(byte list \<Rightarrow> byte list) \<Rightarrow> byte list \<Rightarrow> string \<Rightarrow> byte list option" where
  "compress encodeText data dataType =
     Option.bind
       (if dataType = ''text'' then compressText encodeText data
        else if dataType = ''image'' then compressImageData data
        else if dataType = ''audio'' then compressAudioData data
        else compressBinary data)
       runLengthEncode"

definition decompress :: "byte list \<Rightarrow> string \<Rightarrow> js_data" where
  "decompress data dataType =
     (let decompressed = runLengthDecode data in
      if dataType = ''text'' then decompressText decompressed
      else if dataType = ''image'' then Uint8Array (decompressImageData decompressed)
      else if dataType = ''audio'' then Uint8Array (decompressAudioData decompressed)
      else Uint8Array (decompressBinary decompressed))"

section \<open>Error correction engine (class HMQCECC)\<close>

text \<open>The fields the constructor sets before it calls \<open>generateGeneratorPolynomial\<close>.\<close>

definition symbolSize :: nat where "symbolSize = 8"
definition messageLength :: nat where "messageLength = 223"
definition codewordLength :: nat where "codewordLength = 255"
definition parityLength :: nat where "parityLength = 32"

text \<open>
  \<open>generateGeneratorPolynomial\<close> declares \<open>const gp\<close> and assigns \<open>gp = newGp\<close> at the
  end of the first pass of its loop: an assignment to a constant binding, which throws a
  \<open>TypeError\<close> when it runs. The constructor calls it, so \<open>new HMQCECC()\<close> throws. The
  methods below are modelled on the prototype, with the field values above.
\<close>

definition generateGeneratorPolynomial :: "js_error + byte list" where
  "generateGeneratorPolynomial = (if 0 < parityLength then Inl TypeError else Inr [1])"

function splitIntoBlocks_loop :: "byte list \<Rightarrow> nat \<Rightarrow> byte list list \<Rightarrow> byte list list" where
  "splitIntoBlocks_loop data i blocks =
     (if i < length data
      then (let block = slice data i (i + messageLength)
            in splitIntoBlocks_loop data (i + messageLength)
                 (blocks @ [if length block < messageLength
                            then block @ replicate (messageLength - length block) 0
                            else block]))
      else blocks)"
  by pat_completeness auto
termination
  by (relation "measure (\<lambda>(d, i, b). length d - i)") (auto simp: messageLength_def)

declare splitIntoBlocks_loop.simps [simp del]

definition splitIntoBlocks :: "byte list \<Rightarrow> byte list list" where
  "splitIntoBlocks data = splitIntoBlocks_loop data 0 []"

function extractBlocks_loop :: "byte list \<Rightarrow> nat \<Rightarrow> byte list list \<Rightarrow> byte list list" where
  "extractBlocks_loop encodedData i blocks =
     (if i < length encodedData
      then extractBlocks_loop encodedData (i + codewordLength)
             (blocks @ [slice encodedData i (i + codewordLength)])
      else blocks)"
  by pat_completeness auto
termination
  by (relation "measure (\<lambda>(d, i, b). length d - i)") (auto simp: codewordLength_def)

declare extractBlocks_loop.simps [simp del]

definition extractBlocks :: "byte list \<Rightarrow> byte list list" where
  "extractBlocks encodedData = extractBlocks_loop encodedData 0 []"

text \<open>
  \<open>rsEncodeBlock\<close>: \<open>codeword.set(message, 0)\<close> throws a \<open>RangeError\<close> when the message
  is longer than the codeword. A write to a typed array beyond its end is dropped, as
  \<open>list_update\<close> drops it.
\<close>

definition rsEncodeBlock :: "byte list \<Rightarrow> js_error + byte list" where
  "rsEncodeBlock message =
     (if codewordLength < length message then Inl RangeError
      else Inr (drop (length message)
        (fold (\<lambda>i codeword.
                 let feedback = byteAt codeword i XOR byteAt codeword (length message)
                 in if feedback \<noteq> 0
                    then fold (\<lambda>j cw. cw[i + j := byteAt cw (i + j) XOR feedback])
                              [1 ..< Suc parityLength] codeword
                    else codeword)
              [0 ..< length message]
              (message @ replicate (codewordLength - length message) 0))))"

fun encode_blocks :: "byte list list \<Rightarrow> js_error + byte list list" where
  "encode_blocks [] = Inr []"
| "encode_blocks (block # blocks) =
     (case rsEncodeBlock block of
        Inl e \<Rightarrow> Inl e
      | Inr ecc \<Rightarrow> (case encode_blocks blocks of
                     Inl e \<Rightarrow> Inl e
                   | Inr encodedBlocks \<Rightarrow> Inr ((block @ ecc) # encodedBlocks)))"

definition encode :: "byte list \<Rightarrow> js_error + byte list" where
  "encode data =
     (case encode_blocks (splitIntoBlocks data) of
        Inl e \<Rightarrow> Inl e
      | Inr encodedBlocks \<Rightarrow> Inr (concat encodedBlocks))"

text \<open>
  The result of \<open>rsDecodeBlock\<close>. The property \<open>uncorrectable\<close> is set in the last
  \<open>return\<close> only; where it is absent (\<open>undefined\<close>, which is falsy) the field is False.
\<close>

record block_result =
  data :: "byte list"
  errors :: nat
  uncorrectable :: bool

text \<open>
  Every one of the \<open>parityLength\<close> syndromes is the XOR of all bytes of the codeword.
  \<open>flip i\<close> is the outcome of the test \<open>Math.random() < 0.1\<close> at position \<open>i\<close>.
  \<open>parityLength / 2\<close> is 16.
\<close>

definition syndromes :: "byte list \<Rightarrow> byte list" where
  "syndromes codeword = map (\<lambda>i. fold (\<lambda>c sum. sum XOR c) codeword 0) [0 ..< parityLength]"

definition rsDecodeBlock :: "(nat \<Rightarrow> bool) \<Rightarrow> byte list \<Rightarrow> block_result" where
  "rsDecodeBlock flip codeword =
     (let errors = length (filter (\<lambda>sum. sum \<noteq> 0) (syndromes codeword)) in
      if errors = 0
      then \<lparr>data = slice codeword 0 messageLength, errors = 0, uncorrectable = False\<rparr>
      else if 2 * errors \<le> parityLength
      then (let corrected = map (\<lambda>i. if flip i then codeword ! i XOR 0xFF else codeword ! i)
                              [0 ..< length codeword]
            in \<lparr>data = slice corrected 0 messageLength, errors = errors, uncorrectable = False\<rparr>)
      else \<lparr>data = slice codeword 0 messageLength, errors = errors, uncorrectable = True\<rparr>)"

text \<open>
  The result of \<open>decode\<close> has the properties \<open>data\<close>, \<open>correctedErrors\<close> and
  \<open>success\<close>, and no property \<open>uncorrectable\<close>. \<open>flips k\<close> is the random outcome
  function for block \<open>k\<close>.
\<close>

record decode_result =
  decoded :: "byte list"
  correctedErrors :: nat
  success :: bool

definition decode :: "(nat \<Rightarrow> nat \<Rightarrow> bool) \<Rightarrow> byte list \<Rightarrow> decode_result" where
  "decode flips encodedData =
     (let blocks = extractBlocks encodedData;
          results = map (\<lambda>(k, block). rsDecodeBlock (flips k) block)
                        (zip [0 ..< length blocks] blocks);
          total = sum_list (map errors results)
      in \<lparr>decoded = concat (map data results),
          correctedErrors = total,
          success = (2 * total \<le> parityLength)\<rparr>)"

section \<open>Core engine (js/hmqc-core.js, class HMQCCore)\<close>

subsection \<open>Matrix size and modules\<close>

definition maxSize :: nat where "maxSize = 4096"

text \<open>
  \<open>Math.ceil(Math.sqrt(n))\<close> for a natural number \<open>n\<close>: the least \<open>k\<close> with
  \<open>n \<le> k * k\<close>, found by counting up.
\<close>

function ceilSqrt_from :: "nat \<Rightarrow> nat \<Rightarrow> nat" where
  "ceilSqrt_from n k = (if k * k < n then ceilSqrt_from n (k + 1) else k)"
  by pat_completeness auto
termination
proof (relation "measure (\<lambda>(n, k). n - k)")
  show "wf (measure (\<lambda>(n, k). n - k))" by simp
next
  fix n k :: nat
  assume "k * k < n"
  moreover have "k \<le> k * k" by (cases k) auto
  ultimately have "k < n" by linarith
  then show "((n, k + 1), (n, k)) \<in> measure (\<lambda>(n, k). n - k)" by simp
qed

declare ceilSqrt_from.simps [simp del]

definition ceilSqrt :: "nat \<Rightarrow> nat" where
  "ceilSqrt n = ceilSqrt_from n 0"

definition calculateMatrixSize :: "nat \<Rightarrow> nat" where
  "calculateMatrixSize dataLength =
     (let bitsPerModule = 32;
          modulesNeeded = (dataLength * 8 + (bitsPerModule - 1)) div bitsPerModule;
          gridSize = ceilSqrt modulesNeeded + 50
      in min (max gridSize 256) maxSize)"

text \<open>A module \<open>{ r, g, b, a }\<close>.\<close>

record color_module =
  module_r :: nat
  module_g :: nat
  module_b :: nat
  module_a :: nat

text \<open>\<open>bytes[k] || d\<close>: \<open>d\<close> when the read is out of range or the byte is 0.\<close>

definition byteOr :: "byte list \<Rightarrow> nat \<Rightarrow> nat \<Rightarrow> nat" where
  "byteOr bytes k d = (if k < length bytes \<and> bytes ! k \<noteq> 0 then unat (bytes ! k) else d)"

definition moduleAt :: "byte list \<Rightarrow> nat \<Rightarrow> color_module" where
  "moduleAt bytes i =
     (let byteIndex = i * 4 in
      if byteIndex < length bytes
      then \<lparr>module_r = byteOr bytes byteIndex 0, module_g = byteOr bytes (byteIndex + 1) 0,
            module_b = byteOr bytes (byteIndex + 2) 0,
            module_a = byteOr bytes (byteIndex + 3) 255\<rparr>
      else \<lparr>module_r = (i * 7) mod 256, module_g = (i * 13) mod 256,
            module_b = (i * 19) mod 256, module_a = 255\<rparr>)"

definition bytesToColorModules :: "byte list \<Rightarrow> nat \<Rightarrow> nat \<Rightarrow> color_module list" where
  "bytesToColorModules bytes width height = map (moduleAt bytes) [0 ..< width * height]"

subsection \<open>Metadata header\<close>

definition coreVersion :: string where
  "coreVersion = ''3.0''"

text \<open>
  \<open>view.setUint32(offset, value)\<close>: \<open>value\<close> modulo \<open>2 ^ 32\<close>, big-endian. The offsets
  used are 0, 4, ..., 28 on a 32-byte buffer, so the call never throws.
\<close>

definition be32 :: "nat \<Rightarrow> byte list" where
  "be32 v =
     (let w = v mod 2 ^ 32
      in [of_nat (w div 2 ^ 24), of_nat (w div 2 ^ 16 mod 256),
          of_nat (w div 2 ^ 8 mod 256), of_nat (w mod 256)])"

definition setUint32 :: "byte list \<Rightarrow> nat \<Rightarrow> nat \<Rightarrow> byte list" where
  "setUint32 buf offset v = take offset buf @ be32 v @ drop (offset + 4) buf"

definition getUint32 :: "byte list \<Rightarrow> nat \<Rightarrow> nat" where
  "getUint32 buf offset =
     unat (byteAt buf offset) * 2 ^ 24 + unat (byteAt buf (offset + 1)) * 2 ^ 16 +
     unat (byteAt buf (offset + 2)) * 2 ^ 8 + unat (byteAt buf (offset + 3))"

text \<open>\<open>s.split(sep)\<close> for a one-character separator.\<close>

fun splitOn :: "char \<Rightarrow> string \<Rightarrow> string list" where
  "splitOn sep [] = [[]]"
| "splitOn sep (c # cs) =
     (if c = sep then [] # splitOn sep cs
      else (case splitOn sep cs of p # ps \<Rightarrow> (c # p) # ps | [] \<Rightarrow> [[c]]))"

text \<open>
  \<open>parseInt(s)\<close> for a string without leading blanks, sign or radix prefix: the number
  its leading decimal digits spell, \<open>NaN\<close> (here \<open>None\<close>) when there is none.
\<close>

definition isDigit :: "char \<Rightarrow> bool" where
  "isDigit c = ((of_char CHR ''0'' :: nat) \<le> of_char c \<and> (of_char c :: nat) \<le> of_char CHR ''9'')"

definition parseInt :: "string \<Rightarrow> nat option" where
  "parseInt s =
     (let ds = takeWhile isDigit s
      in if ds = [] then None
         else Some (foldl (\<lambda>n c. n * 10 + (of_char c - of_char CHR ''0'')) (0 :: nat) ds))"

text \<open>
  \<open>.reduce((a, b) => (a << 8) | b)\<close> without an initial value throws a \<open>TypeError\<close>
  on an empty array. \<open>NaN\<close> counts as 0 in \<open><<\<close> and \<open>|\<close> and in \<open>setUint32\<close>, which
  also reduces the result modulo \<open>2 ^ 32\<close>.
\<close>

definition packVersion :: "string \<Rightarrow> js_error + nat" where
  "packVersion v =
     (case map (\<lambda>p. case parseInt p of None \<Rightarrow> 0 | Some n \<Rightarrow> n) (splitOn CHR ''.'' v) of
        [] \<Rightarrow> Inl TypeError
      | p # ps \<Rightarrow> Inr (foldl (\<lambda>a b. push_bit 8 a OR b) p ps))"

text \<open>
  \<open>generateMetadata\<close>; \<open>now\<close> is \<open>Date.now() / 1000 | 0\<close> and \<open>rnd\<close> is
  \<open>Math.random() * 0xFFFFFFFF | 0\<close>, both taken as parameters.
\<close>

definition generateMetadata :: "nat \<Rightarrow> nat \<Rightarrow> string \<Rightarrow> nat \<Rightarrow> nat \<Rightarrow> js_error + byte list" where
  "generateMetadata now rnd dataType originalSize compressedSize =
     (case packVersion coreVersion of
        Inl e \<Rightarrow> Inl e
      | Inr versionWord \<Rightarrow>
          (let meta = replicate 32 0;
               meta = setUint32 meta 0 0x484D5143;
               meta = setUint32 meta 4 versionWord;
               meta = setUint32 meta 8
                        (if dataType = ''text'' then 1 else if dataType = ''image'' then 2
                         else if dataType = ''audio'' then 3 else 4);
               meta = setUint32 meta 12 originalSize;
               meta = setUint32 meta 16 compressedSize;
               meta = setUint32 meta 20 now;
               meta = setUint32 meta 24 rnd;
               meta = setUint32 meta 28 0
           in Inr meta))"

text \<open>\<open>n.toString(16).toUpperCase()\<close> and the decimal \<open>`${n}`\<close>.\<close>

function toStringHex :: "nat \<Rightarrow> string" where
  "toStringHex n =
     (if n < 16 then [''0123456789ABCDEF'' ! n]
      else toStringHex (n div 16) @ [''0123456789ABCDEF'' ! (n mod 16)])"
  by pat_completeness auto
termination
  by (relation "measure id") auto

declare toStringHex.simps [simp del]

function toStringDec :: "nat \<Rightarrow> string" where
  "toStringDec n =
     (if n < 10 then [''0123456789'' ! n]
      else toStringDec (n div 10) @ [''0123456789'' ! (n mod 10)])"
  by pat_completeness auto
termination
  by (relation "measure id") auto

declare toStringDec.simps [simp del]

text \<open>
  The object \<open>parseMetadata\<close> returns; \<open>timestamp\<close> is the \<open>Date\<close> as milliseconds.
  Each \<open>view.getUint32(offset)\<close> throws a \<open>RangeError\<close> unless \<open>offset + 4\<close> bytes are
  there; the largest offset read is 24. The view is over \<open>bytes.buffer\<close>; \<open>bytes\<close> is
  an array that owns its buffer, as the \<open>slice(0, 32)\<close> the decoder passes does.
\<close>

record metadata =
  magic :: string
  version :: string
  dataType :: string
  originalSize :: nat
  compressedSize :: nat
  timestamp :: nat
  meta_id :: nat

definition parseMetadata :: "byte list \<Rightarrow> js_error + metadata" where
  "parseMetadata bytes =
     (if length bytes < 28 then Inl RangeError
      else Inr \<lparr>
        magic = toStringHex (getUint32 bytes 0),
        version = toStringDec (getUint32 bytes 4 div 2 ^ 16 mod 256) @ ''.'' @
                  toStringDec (getUint32 bytes 4 div 2 ^ 8 mod 256) @ ''.'' @
                  toStringDec (getUint32 bytes 4 mod 256),
        dataType = (if getUint32 bytes 8 < 5
                    then [''unknown'', ''text'', ''image'', ''audio'', ''binary''] ! getUint32 bytes 8
                    else ''unknown''),
        originalSize = getUint32 bytes 12,
        compressedSize = getUint32 bytes 16,
        timestamp = getUint32 bytes 20 * 1000,
        meta_id = getUint32 bytes 24\<rparr>)"

section \<open>The run-length pass is invertible\<close>

lemma countRun_returns:
  "1 \<le> count \<Longrightarrow> count \<le> 255 \<Longrightarrow> i + count \<le> length bytes \<Longrightarrow>
   \<forall>k<count. bytes ! (i + k) = bytes ! i \<Longrightarrow>
   \<exists>c. countRun bytes i count = Some c \<and> count \<le> c \<and> c \<le> 255 \<and> i + c \<le> length bytes \<and>
       (\<forall>k<c. bytes ! (i + k) = bytes ! i)"
proof (induction "255 - count" arbitrary: count)
  case 0
  then have "count = 255" by simp
  with 0 show ?case by (subst countRun.simps) auto
next
  case (Suc n)
  show ?case
  proof (cases "i + count < length bytes \<and> bytes ! (i + count) = bytes ! i \<and> count < 255")
    case True
    have same: "\<forall>k<count + 1. bytes ! (i + k) = bytes ! i"
      using Suc.prems(4) True by (auto simp: less_Suc_eq)
    have left: "n = 255 - (count + 1)" using Suc.hyps(2) by simp
    have "\<exists>c. countRun bytes i (count + 1) = Some c \<and> count + 1 \<le> c \<and> c \<le> 255 \<and>
        i + c \<le> length bytes \<and> (\<forall>k<c. bytes ! (i + k) = bytes ! i)"
      using True same by (intro Suc.hyps(1) [OF left]) auto
    then obtain c where "countRun bytes i (count + 1) = Some c" "count + 1 \<le> c" "c \<le> 255"
      "i + c \<le> length bytes" "\<forall>k<c. bytes ! (i + k) = bytes ! i"
      by blast
    with True show ?thesis by (subst countRun.simps) auto
  next
    case False
    with Suc.prems show ?thesis by (subst countRun.simps) auto
  qed
qed

text \<open>The decoder's accumulator only ever grows at the end.\<close>

lemma runLengthDecode_loop_acc:
  "runLengthDecode_loop c i (pre @ acc) = pre @ runLengthDecode_loop c i acc"
proof (induction c i acc arbitrary: pre rule: runLengthDecode_loop.induct)
  case (1 compressed i result)
  show ?case
  proof (cases "i < length compressed")
    case False
    then show ?thesis by (simp add: runLengthDecode_loop.simps)
  next
    case lt: True
    show ?thesis
    proof (cases "compressed ! i = 0xFE \<and> i + 2 < length compressed")
      case esc: True
      let ?run = "replicate (unat (compressed ! (i + 1))) (compressed ! (i + 2))"
      have "runLengthDecode_loop compressed i (pre @ result) =
          runLengthDecode_loop compressed (i + 3) (pre @ (result @ ?run))"
        using lt esc by (subst runLengthDecode_loop.simps) simp
      also have "\<dots> = pre @ runLengthDecode_loop compressed (i + 3) (result @ ?run)"
        using lt esc by (intro "1.IH"(1)) auto
      also have "\<dots> = pre @ runLengthDecode_loop compressed i result"
        using lt esc by (subst (2) runLengthDecode_loop.simps) simp
      finally show ?thesis .
    next
      case lit: False
      have "runLengthDecode_loop compressed i (pre @ result) =
          runLengthDecode_loop compressed (i + 1) (pre @ (result @ [compressed ! i]))"
        using lt lit by (subst runLengthDecode_loop.simps) auto
      also have "\<dots> = pre @ runLengthDecode_loop compressed (i + 1) (result @ [compressed ! i])"
        using lt lit by (intro "1.IH"(2)) auto
      also have "\<dots> = pre @ runLengthDecode_loop compressed i result"
        using lt lit by (subst (2) runLengthDecode_loop.simps) auto
      finally show ?thesis .
    qed
  qed
qed

text \<open>Bytes before the index do not matter to the decoder.\<close>

lemma runLengthDecode_loop_shift:
  "runLengthDecode_loop (p @ c) (length p + i) acc = runLengthDecode_loop c i acc"
proof (induction c i acc rule: runLengthDecode_loop.induct)
  case (1 compressed i result)
  show ?case
  proof (cases "i < length compressed")
    case False
    then show ?thesis by (simp add: runLengthDecode_loop.simps)
  next
    case lt: True
    show ?thesis
    proof (cases "compressed ! i = 0xFE \<and> i + 2 < length compressed")
      case esc: True
      let ?run = "replicate (unat (compressed ! (i + 1))) (compressed ! (i + 2))"
      have "runLengthDecode_loop (p @ compressed) (length p + i) result =
          runLengthDecode_loop (p @ compressed) (length p + (i + 3)) (result @ ?run)"
        using lt esc by (subst runLengthDecode_loop.simps) (simp add: nth_append add.assoc)
      also have "\<dots> = runLengthDecode_loop compressed (i + 3) (result @ ?run)"
        using lt esc by (intro "1.IH"(1)) auto
      also have "\<dots> = runLengthDecode_loop compressed i result"
        using lt esc by (subst (2) runLengthDecode_loop.simps) simp
      finally show ?thesis .
    next
      case lit: False
      have "runLengthDecode_loop (p @ compressed) (length p + i) result =
          runLengthDecode_loop (p @ compressed) (length p + (i + 1)) (result @ [compressed ! i])"
        using lt lit by (subst runLengthDecode_loop.simps) (auto simp: nth_append)
      also have "\<dots> = runLengthDecode_loop compressed (i + 1) (result @ [compressed ! i])"
        using lt lit by (intro "1.IH"(2)) auto
      also have "\<dots> = runLengthDecode_loop compressed i result"
        using lt lit by (subst (2) runLengthDecode_loop.simps) auto
      finally show ?thesis .
    qed
  qed
qed

lemma runLengthDecode_record:
  "runLengthDecode ([0xFE, n, v] @ rest) = replicate (unat n) v @ runLengthDecode rest"
proof -
  let ?p = "[0xFE :: byte, n, v]"
  have e: "(3 :: nat) = length ?p + 0" by simp
  have "runLengthDecode (?p @ rest) =
      runLengthDecode_loop (?p @ rest) 3 (replicate (unat n) v @ [])"
    unfolding runLengthDecode_def by (subst runLengthDecode_loop.simps) simp
  also have "\<dots> = replicate (unat n) v @ runLengthDecode_loop (?p @ rest) 3 []"
    by (rule runLengthDecode_loop_acc)
  also have "\<dots> = replicate (unat n) v @ runLengthDecode rest"
    unfolding runLengthDecode_def by (subst e) (simp only: runLengthDecode_loop_shift)
  finally show ?thesis .
qed

lemma runLengthDecode_literal:
  assumes "x \<noteq> 0xFE"
  shows "runLengthDecode (x # rest) = x # runLengthDecode rest"
proof -
  have e: "(1 :: nat) = length [x] + 0" by simp
  have "runLengthDecode ([x] @ rest) = runLengthDecode_loop ([x] @ rest) 1 ([x] @ [])"
    unfolding runLengthDecode_def using assms by (subst runLengthDecode_loop.simps) simp
  also have "\<dots> = [x] @ runLengthDecode_loop ([x] @ rest) 1 []"
    by (rule runLengthDecode_loop_acc)
  also have "\<dots> = [x] @ runLengthDecode rest"
    unfolding runLengthDecode_def by (subst e) (simp only: runLengthDecode_loop_shift)
  finally show ?thesis by simp
qed

lemma drop_run:
  assumes "i + c \<le> length bytes" "\<forall>k<c. bytes ! (i + k) = bytes ! i"
  shows "drop i bytes = replicate c (bytes ! i) @ drop (i + c) bytes"
proof -
  have "take c (drop i bytes) = replicate c (bytes ! i)"
    using assms by (intro nth_equalityI) auto
  moreover have "drop i bytes = take c (drop i bytes) @ drop c (drop i bytes)"
    by (simp only: append_take_drop_id)
  ultimately show ?thesis by (simp only: drop_drop add.commute)
qed

lemma unat_byte_of_nat: "n < 256 \<Longrightarrow> unat (of_nat n :: byte) = n"
  by (simp add: unat_of_nat take_bit_nat_eq_self)

text \<open>
  From any index the encoder loop returns, it only appends to its accumulator, and what it
  appends decodes to the rest of the input, whatever follows it in the stream.
\<close>

lemma runLengthDecode_Nil: "runLengthDecode [] = []"
  by (simp add: runLengthDecode_def runLengthDecode_loop.simps)

lemma runLengthEncode_loop_decodes:
  "i \<le> length bytes \<Longrightarrow>
   \<exists>out. runLengthEncode_loop bytes i acc = Some (acc @ out) \<and>
         (\<forall>t. runLengthDecode (out @ t) = drop i bytes @ runLengthDecode t)"
proof (induction "length bytes - i" arbitrary: i acc rule: less_induct)
  case less
  show ?case
  proof (cases "i < length bytes")
    case False
    with less.prems show ?thesis
      by (subst runLengthEncode_loop.simps) simp
  next
    case lt: True
    obtain c where c: "countRun bytes i 1 = Some c" "1 \<le> c" "c \<le> 255" "i + c \<le> length bytes"
      "\<forall>k<c. bytes ! (i + k) = bytes ! i"
      using countRun_returns [of 1 i bytes] lt by auto
    show ?thesis
    proof (cases "c > 3")
      case big: True
      let ?rec = "[0xFE, of_nat c, bytes ! i]"
      obtain out where out:
        "runLengthEncode_loop bytes (i + c) (acc @ ?rec) = Some ((acc @ ?rec) @ out)"
        "\<And>t. runLengthDecode (out @ t) = drop (i + c) bytes @ runLengthDecode t"
      proof -
        have "length bytes - (i + c) < length bytes - i" using c(2) lt by arith
        from less.hyps [OF this c(4), of "acc @ ?rec"] that
        show ?thesis by blast
      qed
      have u: "unat (of_nat c :: byte) = c"
        using c(3) by (simp add: unat_byte_of_nat)
      have "runLengthEncode_loop bytes i acc = Some (acc @ (?rec @ out))"
        using lt c(1) big out(1) by (subst runLengthEncode_loop.simps) simp
      moreover have "runLengthDecode ((?rec @ out) @ t) = drop i bytes @ runLengthDecode t" for t
      proof -
        have "runLengthDecode (?rec @ (out @ t)) =
            replicate c (bytes ! i) @ drop (i + c) bytes @ runLengthDecode t"
          using out(2) [of t] u by (simp only: runLengthDecode_record)
        with drop_run [OF c(4) c(5)] show ?thesis by simp
      qed
      ultimately show ?thesis by blast
    next
      case small: False
      let ?lit = "if bytes ! i = 0xFE then [0xFE, 1, 0xFE] else [bytes ! i]"
      obtain out where out:
        "runLengthEncode_loop bytes (i + 1) (acc @ ?lit) = Some ((acc @ ?lit) @ out)"
        "\<And>t. runLengthDecode (out @ t) = drop (i + 1) bytes @ runLengthDecode t"
      proof -
        have "length bytes - (i + 1) < length bytes - i" "i + 1 \<le> length bytes"
          using lt by arith+
        from less.hyps [OF this, of "acc @ ?lit"] that
        show ?thesis by blast
      qed
      have "runLengthEncode_loop bytes i acc = Some (acc @ (?lit @ out))"
        using lt c(1) small out(1)
        by (subst runLengthEncode_loop.simps) (simp split: if_splits)
      moreover have "runLengthDecode ((?lit @ out) @ t) = drop i bytes @ runLengthDecode t" for t
      proof (cases "bytes ! i = 0xFE")
        case fe: True
        then have "runLengthDecode ((?lit @ out) @ t) =
            replicate (unat (1 :: byte)) 0xFE @ runLengthDecode (out @ t)"
          using runLengthDecode_record [of 1 "0xFE" "out @ t"] by simp
        with fe out(2) [of t] Cons_nth_drop_Suc [OF lt] show ?thesis
          by simp
      next
        case False
        then have "runLengthDecode ((?lit @ out) @ t) = bytes ! i # runLengthDecode (out @ t)"
          by (simp add: runLengthDecode_literal)
        with out(2) [of t] Cons_nth_drop_Suc [OF lt] show ?thesis
          by simp
      qed
      ultimately show ?thesis by blast
    qed
  qed
qed

lemma runLengthDecode_after_encoded:
  assumes "runLengthEncode x = Some p"
  shows "runLengthDecode (p @ t) = x @ runLengthDecode t"
  using runLengthEncode_loop_decodes [of 0 x "[]"] assms
  by (auto simp: runLengthEncode_def)


lemma runLengthEncode_loop_correct:
  "i \<le> length bytes \<Longrightarrow>
   \<exists>out. runLengthEncode_loop bytes i acc = Some (acc @ out) \<and>
         runLengthDecode out = drop i bytes"
  using runLengthEncode_loop_decodes [of i bytes acc]
  by (metis append_Nil2 runLengthDecode_Nil)

text \<open>
  The encoder loop on a suffix of the input, and with a longer accumulator. With these,
  the first step of the encoder is an equation on lists.
\<close>

lemma countRun_maximal:
  "1 \<le> count \<Longrightarrow> count \<le> 255 \<Longrightarrow> i + count \<le> length bytes \<Longrightarrow>
   \<forall>k<count. bytes ! (i + k) = bytes ! i \<Longrightarrow>
   \<exists>c. countRun bytes i count = Some c \<and> count \<le> c \<and> c \<le> 255 \<and> i + c \<le> length bytes \<and>
       (\<forall>k<c. bytes ! (i + k) = bytes ! i) \<and>
       (c = 255 \<or> i + c = length bytes \<or> bytes ! (i + c) \<noteq> bytes ! i)"
proof (induction "255 - count" arbitrary: count)
  case 0
  then have "count = 255" by simp
  with 0 show ?case by (subst countRun.simps) auto
next
  case (Suc n)
  show ?case
  proof (cases "i + count < length bytes \<and> bytes ! (i + count) = bytes ! i \<and> count < 255")
    case True
    have same: "\<forall>k<count + 1. bytes ! (i + k) = bytes ! i"
      using Suc.prems(4) True by (auto simp: less_Suc_eq)
    have left: "n = 255 - (count + 1)" using Suc.hyps(2) by simp
    have "\<exists>c. countRun bytes i (count + 1) = Some c \<and> count + 1 \<le> c \<and> c \<le> 255 \<and>
        i + c \<le> length bytes \<and> (\<forall>k<c. bytes ! (i + k) = bytes ! i) \<and>
        (c = 255 \<or> i + c = length bytes \<or> bytes ! (i + c) \<noteq> bytes ! i)"
      using True same by (intro Suc.hyps(1) [OF left]) auto
    then obtain c where "countRun bytes i (count + 1) = Some c" "count + 1 \<le> c" "c \<le> 255"
      "i + c \<le> length bytes" "\<forall>k<c. bytes ! (i + k) = bytes ! i"
      "c = 255 \<or> i + c = length bytes \<or> bytes ! (i + c) \<noteq> bytes ! i"
      by blast
    with True show ?thesis by (subst countRun.simps) auto
  next
    case False
    with Suc.prems show ?thesis by (subst countRun.simps) auto
  qed
qed

lemma countRun_shift:
  "countRun (p @ bytes) (length p + i) count = countRun bytes i count"
proof (induction "255 - count" arbitrary: count)
  case 0
  then show ?case
    by (subst countRun.simps, subst (2) countRun.simps) simp
next
  case (Suc n)
  show ?case
  proof (cases "i + count < length bytes \<and> bytes ! (i + count) = bytes ! i \<and> count < 255")
    case True
    have "n = 255 - (count + 1)" using Suc.hyps(2) by simp
    from Suc.hyps(1) [OF this] True show ?thesis
      by (subst countRun.simps, subst (2) countRun.simps) (simp add: nth_append add.assoc)
  next
    case False
    then show ?thesis
      by (subst countRun.simps, subst (2) countRun.simps) (auto simp: nth_append add.assoc)
  qed
qed

lemma runLengthEncode_loop_shift:
  "runLengthEncode_loop (p @ bytes) (length p + i) acc = runLengthEncode_loop bytes i acc"
proof (induction "length bytes - i" arbitrary: i acc rule: less_induct)
  case less
  show ?case
  proof (cases "i < length bytes")
    case False
    then show ?thesis
      by (subst runLengthEncode_loop.simps, subst (2) runLengthEncode_loop.simps) simp
  next
    case lt: True
    obtain c where c: "countRun bytes i 1 = Some c" "1 \<le> c" "i + c \<le> length bytes"
      using countRun_returns [of 1 i bytes] lt by auto
    have m: "length bytes - (i + c) < length bytes - i" "length bytes - (i + 1) < length bytes - i"
      using c(2) lt by arith+
    have ih: "runLengthEncode_loop (p @ bytes) (length p + i + k) a =
        runLengthEncode_loop bytes (i + k) a" if "k = c \<or> k = 1" for k a
      using that less.hyps [of "i + k" a] m by (auto simp: add.assoc)
    show ?thesis
      using lt c(1) ih [of c] ih [of 1]
      by (subst runLengthEncode_loop.simps, subst (2) runLengthEncode_loop.simps)
         (simp add: countRun_shift nth_append)
  qed
qed

lemma runLengthEncode_loop_acc:
  "runLengthEncode_loop bytes i (p @ acc) = map_option ((@) p) (runLengthEncode_loop bytes i acc)"
proof (induction "length bytes - i" arbitrary: i acc rule: less_induct)
  case less
  show ?case
  proof (cases "i < length bytes")
    case False
    then show ?thesis
      by (subst runLengthEncode_loop.simps, subst (2) runLengthEncode_loop.simps) simp
  next
    case lt: True
    obtain c where c: "countRun bytes i 1 = Some c" "1 \<le> c" "i + c \<le> length bytes"
      using countRun_returns [of 1 i bytes] lt by auto
    have m: "length bytes - (i + c) < length bytes - i" "length bytes - (i + 1) < length bytes - i"
      using c(2) lt by arith+
    have ih: "runLengthEncode_loop bytes (i + k) (p @ a) =
        map_option ((@) p) (runLengthEncode_loop bytes (i + k) a)" if "k = c \<or> k = 1" for k a
      using that less.hyps [of "i + k" a] m by auto
    show ?thesis
      using lt c(1) ih [of c] ih [of 1]
      by (subst runLengthEncode_loop.simps, subst (2) runLengthEncode_loop.simps) simp
  qed
qed

lemma runLengthEncode_record_step:
  assumes "3 < n" "n \<le> 255" "n = 255 \<or> take 1 rest \<noteq> [v]"
  shows "runLengthEncode (replicate n v @ rest) =
         map_option ((@) [0xFE, of_nat n, v]) (runLengthEncode rest)"
proof -
  let ?bytes = "replicate n v @ rest"
  have nth: "?bytes ! k = v" if "k < n" for k
    using that by (simp add: nth_append)
  obtain c where c: "countRun ?bytes 0 1 = Some c" "c \<le> 255" "c \<le> length ?bytes"
    "\<forall>k<c. ?bytes ! k = ?bytes ! 0"
    "c = 255 \<or> c = length ?bytes \<or> ?bytes ! c \<noteq> ?bytes ! 0"
    using countRun_maximal [of 1 0 ?bytes] assms(1) by auto
  have v0: "?bytes ! 0 = v" using assms(1) nth [of 0] by simp
  have "\<not> c < n"
  proof
    assume "c < n"
    with c(5) assms(2) nth [of c] v0 show False by auto
  qed
  moreover have "\<not> n < c"
  proof
    assume less: "n < c"
    with c(2) assms(2,3) have t: "take 1 rest \<noteq> [v]" by auto
    from less c(3) have "rest \<noteq> []" by auto
    moreover from less c(4) v0 have "?bytes ! n = v" by auto
    ultimately have "take 1 rest = [v]"
      by (cases rest) (auto simp: nth_append)
    with t show False by simp
  qed
  ultimately have cn: "c = n" by simp
  have "runLengthEncode ?bytes =
      runLengthEncode_loop ?bytes (length (replicate n v) + 0) ([0xFE, of_nat n, v] @ [])"
    unfolding runLengthEncode_def using c(1) cn assms(1) v0
    by (subst runLengthEncode_loop.simps) simp
  also have "\<dots> = map_option ((@) [0xFE, of_nat n, v]) (runLengthEncode rest)"
    unfolding runLengthEncode_def
    by (simp only: runLengthEncode_loop_shift runLengthEncode_loop_acc)
  finally show ?thesis .
qed

lemma countRun_short:
  assumes "take 3 rest \<noteq> replicate 3 v"
  shows "\<exists>c. countRun (v # rest) 0 1 = Some c \<and> c \<le> 3"
proof -
  obtain c where c: "countRun (v # rest) 0 1 = Some c" "c \<le> length (v # rest)"
    "\<forall>k<c. (v # rest) ! k = (v # rest) ! 0"
    using countRun_returns [of 1 0 "v # rest"] by auto
  have "c \<le> 3"
  proof (rule ccontr)
    assume "\<not> c \<le> 3"
    then have big: "3 < c" by simp
    with c(2) have l: "3 \<le> length rest" by simp
    have "rest ! k = v" if "k < 3" for k
      using c(3) big that by (auto dest: spec [of _ "Suc k"])
    with l have "take 3 rest = replicate 3 v"
      by (intro nth_equalityI) auto
    with assms show False by simp
  qed
  with c(1) show ?thesis by blast
qed

lemma runLengthEncode_literal_step:
  assumes "take 3 rest \<noteq> replicate 3 v"
  shows "runLengthEncode (v # rest) =
         map_option ((@) (if v = 0xFE then [0xFE, 1, 0xFE] else [v])) (runLengthEncode rest)"
proof -
  let ?lit = "if v = 0xFE then [0xFE, 1, 0xFE] else [v]"
  obtain c where c: "countRun (v # rest) 0 1 = Some c" "c \<le> 3"
    using countRun_short [OF assms] by blast
  have "runLengthEncode ([v] @ rest) =
      runLengthEncode_loop ([v] @ rest) (length [v] + 0) (?lit @ [])"
    unfolding runLengthEncode_def using c
    by (subst runLengthEncode_loop.simps) simp
  also have "\<dots> = map_option ((@) ?lit) (runLengthEncode rest)"
    unfolding runLengthEncode_def
    by (simp only: runLengthEncode_loop_shift runLengthEncode_loop_acc)
  finally show ?thesis by simp
qed

lemma runLengthEncode_Nil: "runLengthEncode [] = Some []"
  by (simp add: runLengthEncode_def runLengthEncode_loop.simps)


text \<open>A run of five, then a literal sentinel.\<close>

lemma runLengthEncode_example:
  "runLengthEncode [7, 7, 7, 7, 7, 0xFE] = Some [0xFE, 5, 7, 0xFE, 1, 0xFE]"
  by code_simp

text \<open>
  Claim C10. For every byte sequence \<open>x\<close>, \<open>runLengthEncode\<close> returns, and
  \<open>runLengthDecode\<close> of what it returns is \<open>x\<close>. The encoder works run by run: a run of
  \<open>n\<close> equal bytes with \<open>3 < n \<le> 255\<close>, which is the whole run or its first 255 bytes,
  becomes the record \<open>(0xFE, n, value)\<close>; a byte 0xFE that does not start four equal bytes
  becomes \<open>(0xFE, 1, 0xFE)\<close>; any other byte that does not start four equal bytes is
  copied; and the rest of the input is encoded in the same way. The decoder expands a
  record into \<open>count\<close> copies of the value and goes on after it.
\<close>

theorem runLengthDecode_runLengthEncode:
  "(\<exists>y. runLengthEncode x = Some y \<and> runLengthDecode y = x) \<and>
   (3 < n \<and> n \<le> 255 \<and> (n = 255 \<or> take 1 ys \<noteq> [v]) \<longrightarrow>
      runLengthEncode (replicate n v @ ys) =
        map_option ((@) [0xFE, of_nat n, v]) (runLengthEncode ys)) \<and>
   (take 3 zs \<noteq> replicate 3 0xFE \<longrightarrow>
      runLengthEncode (0xFE # zs) = map_option ((@) [0xFE, 1, 0xFE]) (runLengthEncode zs)) \<and>
   (w \<noteq> 0xFE \<and> take 3 ws \<noteq> replicate 3 w \<longrightarrow>
      runLengthEncode (w # ws) = map_option ((#) w) (runLengthEncode ws)) \<and>
   runLengthDecode ([0xFE, k, u] @ us) = replicate (unat k) u @ runLengthDecode us"
proof -
  have "\<exists>y. runLengthEncode x = Some y \<and> runLengthDecode y = x"
    using runLengthEncode_loop_correct [of 0 x "[]"] by (simp add: runLengthEncode_def)
  moreover have "runLengthEncode (0xFE # zs) =
      map_option ((@) [0xFE, 1, 0xFE]) (runLengthEncode zs)"
    if "take 3 zs \<noteq> replicate 3 0xFE"
    using runLengthEncode_literal_step [OF that] by simp
  moreover have "runLengthEncode (w # ws) = map_option ((#) w) (runLengthEncode ws)"
    if "w \<noteq> 0xFE" "take 3 ws \<noteq> replicate 3 w"
  proof -
    have "(@) [w] = (#) w" by auto
    with runLengthEncode_literal_step [OF that(2)] that(1) show ?thesis by simp
  qed
  ultimately show ?thesis
    using runLengthEncode_record_step [of n ys v] runLengthDecode_record [of k u us]
    by blast
qed

theorem runLengthDecode_runLengthEncode_witness:
  "(\<exists>y. runLengthEncode [7, 7, 7, 7, 7, 0xFE, 9] = Some y \<and>
        runLengthDecode y = [7, 7, 7, 7, 7, 0xFE, 9]) \<and>
   (3 :: nat) < 5 \<and> (5 :: nat) \<le> 255 \<and> take 1 [0xFE, 9] \<noteq> [7 :: byte] \<and>
   runLengthEncode (replicate 5 7 @ [0xFE, 9]) = Some [0xFE, 5, 7, 0xFE, 1, 0xFE, 9] \<and>
   take 3 [9] \<noteq> replicate 3 (0xFE :: byte) \<and>
   runLengthEncode (0xFE # [9]) = Some [0xFE, 1, 0xFE, 9] \<and>
   (9 :: byte) \<noteq> 0xFE \<and> take 3 [] \<noteq> replicate 3 (9 :: byte) \<and>
   runLengthEncode (9 # []) = Some [9] \<and>
   runLengthDecode ([0xFE, 5, 7] @ [0xFE, 1, 0xFE, 9]) =
     replicate (unat (5 :: byte)) 7 @ [0xFE, 9]"
proof -
  have e: "runLengthEncode [0xFE, 9] = Some [0xFE, 1, 0xFE, 9]"
    "runLengthEncode [9] = Some [9]" "runLengthEncode [] = Some []"
    "runLengthDecode [0xFE, 1, 0xFE, 9] = [0xFE, 9]"
    by code_simp+
  have h: "take 1 [0xFE, 9] \<noteq> [7 :: byte]" "take 3 [9] \<noteq> replicate 3 (0xFE :: byte)"
    "take 3 [] \<noteq> replicate 3 (9 :: byte)"
    by (simp_all add: numeral_3_eq_3)
  from runLengthDecode_runLengthEncode
    [of "[7, 7, 7, 7, 7, 0xFE, 9]" 5 "[0xFE, 9]" 7 "[9]" 9 "[]" 5 7 "[0xFE, 1, 0xFE, 9]"] e h
  show ?thesis by simp
qed

section \<open>Compression returns for every input\<close>

lemma firstMatch_len:
  "firstMatch table bytes i lens = Some (len, code) \<Longrightarrow> len \<in> set lens"
  by (induction lens) (auto split: if_splits option.splits)

lemma compressText_loop_returns: "\<exists>out. compressText_loop bytes i acc = Some out"
proof (induction "length bytes - i" arbitrary: i acc rule: less_induct)
  case less
  show ?case
  proof (cases "i < length bytes")
    case False
    then show ?thesis by (subst compressText_loop.simps) simp
  next
    case lt: True
    show ?thesis
    proof (cases "firstMatch (\<lambda>s. map_of dictionary (fromCharCode s)) bytes i [3, 2]")
      case None
      have "length bytes - (i + 1) < length bytes - i" using lt by arith
      from less.hyps [OF this, of "acc @ [bytes ! i]"] lt None
      show ?thesis by (subst compressText_loop.simps) simp
    next
      case (Some m)
      obtain len code where m: "m = (len, code)" by (cases m)
      with Some firstMatch_len have "len \<in> set [3, 2]" by blast
      then have "0 < len" by auto
      then have "length bytes - (i + len) < length bytes - i" using lt by arith
      from less.hyps [OF this, of "acc @ [code]"] lt Some m
      show ?thesis by (subst compressText_loop.simps) simp
    qed
  qed
qed

lemma encodeFrequentPatterns_loop_returns:
  "\<exists>out. encodeFrequentPatterns_loop emap bytes i acc = Some out"
proof (induction "length bytes - i" arbitrary: i acc rule: less_induct)
  case less
  show ?case
  proof (cases "i < length bytes")
    case False
    then show ?thesis by (subst encodeFrequentPatterns_loop.simps) simp
  next
    case lt: True
    show ?thesis
    proof (cases "firstMatch (map_of emap) bytes i [5, 4, 3]")
      case None
      have "length bytes - (i + 1) < length bytes - i" using lt by arith
      from less.hyps [OF this, of "acc @ [bytes ! i]"] lt None
      show ?thesis by (subst encodeFrequentPatterns_loop.simps) simp
    next
      case (Some m)
      obtain len code where m: "m = (len, code)" by (cases m)
      with Some firstMatch_len have "len \<in> set [5, 4, 3]" by blast
      then have "0 < len" by auto
      then have "length bytes - (i + len) < length bytes - i" using lt by arith
      from less.hyps [OF this, of "acc @ [code]"] lt Some m
      show ?thesis by (subst encodeFrequentPatterns_loop.simps) simp
    qed
  qed
qed

lemma compressBinary_returns: "\<exists>out. compressBinary bytes = Some out"
  using encodeFrequentPatterns_loop_returns
  by (simp add: compressBinary_def encodeFrequentPatterns_def Let_def)

lemma runLengthEncode_returns: "\<exists>out. runLengthEncode bytes = Some out"
  using runLengthEncode_loop_correct [of 0 bytes "[]"] by (auto simp: runLengthEncode_def)

text \<open>
  Claim C8. For every byte sequence, the empty one included, and every value of the type
  argument, \<open>compress\<close> returns a byte sequence: none of its loops runs forever, and
  the code has no statement that throws on a byte array. This holds whatever the platform's
  text encoder returns.
\<close>

theorem compress_returns: "\<exists>out. compress encodeText x t = Some out"
proof -
  have tx: "\<exists>mid. compressText encodeText x = Some mid"
    using compressText_loop_returns [of "encodeText x" 0 "[]"] by (simp add: compressText_def)
  have im: "\<exists>mid. compressImageData x = Some mid"
    using compressBinary_returns [of x] by (simp add: compressImageData_def)
  have au: "\<exists>mid. compressAudioData x = Some mid"
    using compressBinary_returns [of "compressAudioData_loop x 2 [byteAt x 0, byteAt x 1]"]
    by (simp add: compressAudioData_def)
  have "\<exists>mid. (if t = ''text'' then compressText encodeText x
      else if t = ''image'' then compressImageData x
      else if t = ''audio'' then compressAudioData x
      else compressBinary x) = Some mid"
    using tx im au compressBinary_returns [of x] by simp
  then obtain mid where
    "(if t = ''text'' then compressText encodeText x
      else if t = ''image'' then compressImageData x
      else if t = ''audio'' then compressAudioData x
      else compressBinary x) = Some mid"
    by blast
  then show ?thesis
    using runLengthEncode_returns [of mid] by (simp add: compress_def)
qed

section \<open>The pattern decoder does not invert the pattern encoder\<close>

text \<open>
  Claim C1 (the code does not meet it). The round trip
  \<open>decompress (compress x t) t = x\<close> fails in binary mode at the one-byte input
  \<open>[0xA0]\<close>: \<open>compress\<close> returns the terminator 0xFF followed by the byte, and
  \<open>decodeFrequentPatterns\<close> turns every byte from 0xA0 to 0xAF into three zero bytes.
\<close>

theorem compress_decompress_placeholder:
  "compress encodeText [0xA0] ''binary'' = Some [0xFF, 0xA0] \<and>
   decompress [0xFF, 0xA0] ''binary'' = Uint8Array [0, 0, 0]"
  by code_simp

text \<open>The empty input comes back as one zero byte.\<close>

lemma compress_decompress_empty:
  "compress encodeText [] ''binary'' = Some [0xFF, 0] \<and>
   decompress [0xFF, 0] ''binary'' = Uint8Array [0]"
  by code_simp

section \<open>Decompression of truncated streams\<close>

text \<open>
  Claim C6, as stated: \<open>decompress\<close> fails on a stream whose escape record is cut off or
  whose dictionary terminator is missing. The stream \<open>[0xFE, 5]\<close> is both, and
  \<open>decompress\<close> returns one zero byte for it.
\<close>

theorem decompress_truncated_counterexample:
  "decompress [0xFE, 5] ''binary'' = Uint8Array [0]"
  by code_simp

lemma runLengthDecode_short:
  "runLengthDecode [0xFE] = [0xFE]" "runLengthDecode [0xFE, n] = [0xFE, n]"
  by (simp_all add: runLengthDecode_def runLengthDecode_loop.simps)

lemma dictEnd_loop_no_terminator:
  "0xFF \<notin> set d \<Longrightarrow> k \<le> length d \<Longrightarrow> dictEnd_loop d k = length d"
proof (induction d k rule: dictEnd_loop.induct)
  case (1 compressed dictEnd)
  show ?case
  proof (cases "dictEnd < length compressed")
    case True
    with "1.prems" have "compressed ! dictEnd \<noteq> 0xFF" by (metis nth_mem)
    with True "1.IH" "1.prems" show ?thesis by (subst dictEnd_loop.simps) simp
  next
    case False
    with "1.prems" show ?thesis by (subst dictEnd_loop.simps) simp
  qed
qed

lemma decodeFrequentPatterns_no_terminator:
  "0xFF \<notin> set d \<Longrightarrow> decodeFrequentPatterns d = []"
  by (simp add: decodeFrequentPatterns_def dictEnd_loop_no_terminator)

text \<open>
  Where the decoder loop stands on a sentinel with fewer than two bytes after it, it appends
  the remaining bytes unchanged.
\<close>

lemma runLengthDecode_loop_cut:
  assumes "i < length c" "c ! i = 0xFE" "length c \<le> i + 2"
  shows "runLengthDecode_loop c i acc = acc @ drop i c"
proof (cases "i + 1 < length c")
  case True
  with assms have l: "length c = i + 2" by simp
  have d: "drop i c = [c ! i, c ! (i + 1)]"
    using l by (metis True add.commute assms(1) Cons_nth_drop_Suc drop_all
        order.refl plus_1_eq_Suc Suc_1 add_Suc_right)
  have "runLengthDecode_loop c i acc = runLengthDecode_loop c (i + 1) (acc @ [c ! i])"
    using assms by (subst runLengthDecode_loop.simps) simp
  also have "\<dots> = runLengthDecode_loop c (i + 2) ((acc @ [c ! i]) @ [c ! (i + 1)])"
    using True l by (subst runLengthDecode_loop.simps) simp
  also have "\<dots> = (acc @ [c ! i]) @ [c ! (i + 1)]"
    using l by (subst runLengthDecode_loop.simps) simp
  finally show ?thesis using d by simp
next
  case False
  with assms have l: "length c = i + 1" by simp
  have d: "drop i c = [c ! i]"
    using l assms(1) by (metis Cons_nth_drop_Suc drop_all order.refl Suc_eq_plus1)
  have "runLengthDecode_loop c i acc = runLengthDecode_loop c (i + 1) (acc @ [c ! i])"
    using assms by (subst runLengthDecode_loop.simps) simp
  also have "\<dots> = acc @ [c ! i]"
    using l by (subst runLengthDecode_loop.simps) simp
  finally show ?thesis using d by simp
qed


text \<open>
  Claim C6, amended. \<open>decompress\<close> raises no error on a truncated stream. In the
  run-length pass, a sentinel 0xFE with fewer than two bytes after it at the end of the
  buffer is copied to the output together with the byte that follows it, whatever precedes
  it in the stream; a stream that \<open>runLengthEncode\<close> produced, followed by such a cut
  record, decodes to the original bytes followed by the bytes of the cut record, and
  \<open>decompress\<close> hands exactly these bytes to the stage of the declared type. In the
  pattern pass, a stream without the terminator 0xFF decodes to the empty sequence.
\<close>

theorem decompress_truncated_stream:
  "(i < length c \<and> c ! i = 0xFE \<and> length c \<le> i + 2 \<longrightarrow>
      runLengthDecode_loop c i acc = acc @ drop i c) \<and>
   (runLengthEncode x = Some p \<longrightarrow>
      runLengthDecode (p @ [0xFE]) = x @ [0xFE] \<and>
      runLengthDecode (p @ [0xFE, n]) = x @ [0xFE, n] \<and>
      decompress (p @ [0xFE, n]) t =
        (if t = ''text'' then decompressText (x @ [0xFE, n])
         else if t = ''image'' then Uint8Array (decompressImageData (x @ [0xFE, n]))
         else if t = ''audio'' then Uint8Array (decompressAudioData (x @ [0xFE, n]))
         else Uint8Array (decompressBinary (x @ [0xFE, n])))) \<and>
   (0xFF \<notin> set d \<longrightarrow> decodeFrequentPatterns d = [])"
  by (simp add: runLengthDecode_loop_cut runLengthDecode_after_encoded runLengthDecode_short
      decodeFrequentPatterns_no_terminator decompress_def)

theorem decompress_truncated_stream_witness:
  "3 < length [0xFE, 5, 7, 0xFE, 1 :: byte] \<and> [0xFE, 5, 7, 0xFE, 1 :: byte] ! 3 = 0xFE \<and>
   length [0xFE, 5, 7, 0xFE, 1 :: byte] \<le> 3 + 2 \<and>
   runLengthDecode_loop [0xFE, 5, 7, 0xFE, 1] 3 [7, 7, 7, 7, 7] = [7, 7, 7, 7, 7, 0xFE, 1] \<and>
   runLengthEncode [7, 7, 7, 7, 7] = Some [0xFE, 5, 7] \<and>
   runLengthDecode ([0xFE, 5, 7] @ [0xFE]) = [7, 7, 7, 7, 7, 0xFE] \<and>
   runLengthDecode ([0xFE, 5, 7] @ [0xFE, 1]) = [7, 7, 7, 7, 7, 0xFE, 1] \<and>
   decompress ([0xFE, 5, 7] @ [0xFE, 1]) ''text'' = decompressText [7, 7, 7, 7, 7, 0xFE, 1] \<and>
   0xFF \<notin> set [1 :: byte, 2] \<and> decodeFrequentPatterns [1, 2] = []"
proof -
  have e: "runLengthEncode [7, 7, 7, 7, 7] = Some [0xFE, 5, 7]" by code_simp
  from decompress_truncated_stream
    [of 3 "[0xFE, 5, 7, 0xFE, 1]" "[7, 7, 7, 7, 7]" "[7, 7, 7, 7, 7]" "[0xFE, 5, 7]" 1
        "''text''" "[1, 2]"] e
  show ?thesis by simp
qed

section \<open>The error correction engine corrects nothing\<close>

lemma new_HMQCECC_throws: "generateGeneratorPolynomial = Inl TypeError"
  by (simp add: generateGeneratorPolynomial_def parityLength_def)

lemma syndromes_all_equal:
  "syndromes codeword = replicate 32 (fold (\<lambda>c sum. sum XOR c) codeword 0)"
  by (simp add: syndromes_def parityLength_def map_replicate_const)

text \<open>
  The error count of a block is 0 or 32, so the branch that flips random bytes is never
  taken, and no byte of a block is ever changed.
\<close>

lemma rsDecodeBlock_cases:
  "rsDecodeBlock flip codeword =
     (if fold (\<lambda>c sum. sum XOR c) codeword 0 = 0
      then \<lparr>data = slice codeword 0 messageLength, errors = 0, uncorrectable = False\<rparr>
      else \<lparr>data = slice codeword 0 messageLength, errors = 32, uncorrectable = True\<rparr>)"
  by (simp add: rsDecodeBlock_def syndromes_all_equal parityLength_def Let_def)

text \<open>
  Claim C2 (the code does not meet it). The all-zero block is a codeword: it is what
  \<open>encode\<close> makes of 223 zero bytes. With one symbol error, its first byte set to 1,
  \<open>rsDecodeBlock\<close> reports 32 errors and \<open>uncorrectable\<close>, returns the corrupted message,
  and \<open>decode\<close> reports 32 corrected errors and no success. With eighteen symbol errors
  that cancel in the XOR, \<open>decode\<close> reports no error at all.
\<close>

theorem decode_one_error:
  "encode (replicate 223 0) = Inr (replicate 255 0) \<and>
   rsDecodeBlock flip (1 # replicate 254 0) =
     \<lparr>data = 1 # replicate 222 0, errors = 32, uncorrectable = True\<rparr> \<and>
   decode flips (1 # replicate 254 0) =
     \<lparr>decoded = 1 # replicate 222 0, correctedErrors = 32, success = False\<rparr> \<and>
   decode flips (replicate 18 1 @ replicate 237 0) =
     \<lparr>decoded = replicate 18 1 @ replicate 205 0, correctedErrors = 0, success = True\<rparr>"
  by code_simp

text \<open>
  Claim C3 (the code does not meet it). The one-byte input \<open>[1]\<close> is encoded as one block
  whose parity is eight bytes 1 and twenty-four bytes 0; the XOR of the block is 1, so
  \<open>decode\<close> of the untouched block reports 32 corrected errors and no success. The data
  it returns is the padded message.
\<close>

theorem decode_encode_clean:
  "encode [1] = Inr (1 # replicate 222 0 @ replicate 8 1 @ replicate 24 0) \<and>
   decode flips (1 # replicate 222 0 @ replicate 8 1 @ replicate 24 0) =
     \<lparr>decoded = 1 # replicate 222 0, correctedErrors = 32, success = False\<rparr>"
  by code_simp

section \<open>Metadata header\<close>

lemma be32_sum:
  fixes w :: nat
  shows "(w div 2 ^ 24) * 2 ^ 24 + (w div 2 ^ 16 mod 256) * 2 ^ 16 +
         (w div 2 ^ 8 mod 256) * 2 ^ 8 + w mod 256 = w"
proof -
  define x where "x = w div 256"
  define y where "y = x div 256"
  define z where "z = y div 256"
  have a: "w = x * 256 + w mod 256" by (simp add: x_def)
  have b: "x = y * 256 + x mod 256" by (simp add: y_def)
  have c: "y = z * 256 + y mod 256" by (simp add: z_def)
  have x: "w div 2 ^ 8 = x" by (simp add: x_def)
  have y: "w div 2 ^ 16 = y"
    using div_mult2_eq [of w 256 256] by (simp add: x_def y_def)
  have z: "w div 2 ^ 24 = z"
    using div_mult2_eq [of w 65536 256] y by (simp add: z_def)
  have "z * 2 ^ 24 + (y mod 256) * 2 ^ 16 + (x mod 256) * 2 ^ 8 + w mod 256 = w"
    using a b c by simp
  then show ?thesis by (simp only: x y z)
qed

lemma length_be32: "length (be32 v) = 4"
  by (simp add: be32_def Let_def)

text \<open>Reading back a word written at the same offset gives the value modulo \<open>2 ^ 32\<close>.\<close>

lemma getUint32_be32:
  assumes "length pre = off"
  shows "getUint32 (pre @ be32 v @ post) off = v mod 2 ^ 32"
proof -
  define w where "w = v mod 2 ^ 32"
  have "w < 2 ^ 32" by (simp add: w_def)
  then have d: "w div 2 ^ 24 < 256" by (simp add: less_mult_imp_div_less)
  have bytes: "byteAt (pre @ be32 v @ post) off = of_nat (w div 2 ^ 24)"
    "byteAt (pre @ be32 v @ post) (off + 1) = of_nat (w div 2 ^ 16 mod 256)"
    "byteAt (pre @ be32 v @ post) (off + 2) = of_nat (w div 2 ^ 8 mod 256)"
    "byteAt (pre @ be32 v @ post) (off + 3) = of_nat (w mod 256)"
    using assms by (simp_all add: byteAt_def be32_def Let_def nth_append w_def)
  have "getUint32 (pre @ be32 v @ post) off =
      (w div 2 ^ 24) * 2 ^ 24 + (w div 2 ^ 16 mod 256) * 2 ^ 16 +
      (w div 2 ^ 8 mod 256) * 2 ^ 8 + w mod 256"
    unfolding getUint32_def bytes using d
    by (simp only: unat_byte_of_nat mod_less_divisor zero_less_numeral)
  also have "\<dots> = w" by (rule be32_sum)
  finally show ?thesis by (simp add: w_def)
qed

lemma packVersion_coreVersion: "packVersion coreVersion = Inr 768"
  by code_simp

lemma setUint32_field0: "setUint32 (replicate 32 0) 0 v = be32 v @ replicate 28 0"
  by (simp add: setUint32_def)
lemma setUint32_field1: "setUint32 (be32 a @ replicate 28 0) 4 v = be32 a @ be32 v @ replicate 24 0"
  by (simp add: setUint32_def length_be32)
lemma setUint32_field2: "setUint32 (be32 a @ be32 b @ replicate 24 0) 8 v =
      be32 a @ be32 b @ be32 v @ replicate 20 0"
  by (simp add: setUint32_def length_be32)
lemma setUint32_field3: "setUint32 (be32 a @ be32 b @ be32 c @ replicate 20 0) 12 v =
      be32 a @ be32 b @ be32 c @ be32 v @ replicate 16 0"
  by (simp add: setUint32_def length_be32)
lemma setUint32_field4: "setUint32 (be32 a @ be32 b @ be32 c @ be32 d @ replicate 16 0) 16 v =
      be32 a @ be32 b @ be32 c @ be32 d @ be32 v @ replicate 12 0"
  by (simp add: setUint32_def length_be32)
lemma setUint32_field5: "setUint32 (be32 a @ be32 b @ be32 c @ be32 d @ be32 e @ replicate 12 0) 20 v =
      be32 a @ be32 b @ be32 c @ be32 d @ be32 e @ be32 v @ replicate 8 0"
  by (simp add: setUint32_def length_be32)
lemma setUint32_field6: "setUint32 (be32 a @ be32 b @ be32 c @ be32 d @ be32 e @ be32 f @ replicate 8 0) 24 v =
      be32 a @ be32 b @ be32 c @ be32 d @ be32 e @ be32 f @ be32 v @ replicate 4 0"
  by (simp add: setUint32_def length_be32)
lemma setUint32_field7: "setUint32 (be32 a @ be32 b @ be32 c @ be32 d @ be32 e @ be32 f @ be32 g @
        replicate 4 0) 28 v =
      be32 a @ be32 b @ be32 c @ be32 d @ be32 e @ be32 f @ be32 g @ be32 v"
  by (simp add: setUint32_def length_be32)

lemma generateMetadata_bytes:
  "generateMetadata now rnd t x y =
     Inr (be32 0x484D5143 @ be32 768 @
          be32 (if t = ''text'' then 1 else if t = ''image'' then 2
                else if t = ''audio'' then 3 else 4) @
          be32 x @ be32 y @ be32 now @ be32 rnd @ be32 0)"
  unfolding generateMetadata_def
  apply (simp only: packVersion_coreVersion)
  apply (simp only: sum.case)
  apply (simp only: Let_def)
  apply (simp only: setUint32_field0)
  apply (simp only: setUint32_field1)
  apply (simp only: setUint32_field2 setUint32_field3 setUint32_field4 setUint32_field5
      setUint32_field6 setUint32_field7)
  done

lemma getUint32_fields:
  "getUint32 (be32 a @ post) 0 = a mod 2 ^ 32"
  "getUint32 (be32 a @ be32 b @ post) 4 = b mod 2 ^ 32"
  "getUint32 (be32 a @ be32 b @ be32 c @ post) 8 = c mod 2 ^ 32"
  "getUint32 (be32 a @ be32 b @ be32 c @ be32 d @ post) 12 = d mod 2 ^ 32"
  "getUint32 (be32 a @ be32 b @ be32 c @ be32 d @ be32 e @ post) 16 = e mod 2 ^ 32"
  "getUint32 (be32 a @ be32 b @ be32 c @ be32 d @ be32 e @ be32 f @ post) 20 = f mod 2 ^ 32"
  "getUint32 (be32 a @ be32 b @ be32 c @ be32 d @ be32 e @ be32 f @ be32 g @ post) 24 =
     g mod 2 ^ 32"
  using getUint32_be32 [of "[]" 0 a post]
    getUint32_be32 [of "be32 a" 4 b post]
    getUint32_be32 [of "be32 a @ be32 b" 8 c post]
    getUint32_be32 [of "be32 a @ be32 b @ be32 c" 12 d post]
    getUint32_be32 [of "be32 a @ be32 b @ be32 c @ be32 d" 16 e post]
    getUint32_be32 [of "be32 a @ be32 b @ be32 c @ be32 d @ be32 e" 20 f post]
    getUint32_be32 [of "be32 a @ be32 b @ be32 c @ be32 d @ be32 e @ be32 f" 24 g post]
  by (simp_all add: length_be32)

lemma toStringDec_small: "toStringDec 0 = ''0''" "toStringDec 3 = ''3''"
  by (simp_all add: toStringDec.simps)

text \<open>
  For every type among the four and all sizes below \<open>2 ^ 32\<close>, the type and both sizes
  are read back as written; the version read back is \<open>0.3.0\<close>.
\<close>

lemma header_fields_roundtrip:
  assumes "t \<in> {''text'', ''image'', ''audio'', ''binary''}" "x < 2 ^ 32" "y < 2 ^ 32"
  shows "\<exists>hdr m. generateMetadata now rnd t x y = Inr hdr \<and> length hdr = 32 \<and>
           parseMetadata hdr = Inr m \<and>
           dataType m = t \<and> originalSize m = x \<and> compressedSize m = y \<and>
           version m = ''0.3.0''"
proof -
  let ?code = "if t = ''text'' then 1 else if t = ''image'' then 2
               else if t = ''audio'' then 3 else (4 :: nat)"
  let ?hdr = "be32 0x484D5143 @ be32 768 @ be32 ?code @ be32 x @ be32 y @ be32 now @
              be32 rnd @ be32 0"
  have g: "generateMetadata now rnd t x y = Inr ?hdr" by (rule generateMetadata_bytes)
  have l: "length ?hdr = 32" by (simp add: length_be32)
  have c: "?code < 5" "?code mod 2 ^ 32 = ?code" by auto
  have ty: "[''unknown'', ''text'', ''image'', ''audio'', ''binary''] ! ?code = t"
    using assms(1) by auto
  have "parseMetadata ?hdr = Inr \<lparr>
        magic = toStringHex (0x484D5143 mod 2 ^ 32),
        version = ''0.3.0'', dataType = t, originalSize = x, compressedSize = y,
        timestamp = (now mod 2 ^ 32) * 1000, meta_id = rnd mod 2 ^ 32\<rparr>"
    unfolding parseMetadata_def getUint32_fields
    using l c ty assms(2,3) by (simp add: toStringDec_small)
  with g l show ?thesis by (intro exI [of _ ?hdr]) auto
qed

lemma toStringHex_magic: "toStringHex 0x484D5143 = ''484D5143''"
  by (simp add: toStringHex.simps)

text \<open>
  Claim C4 (the code does not meet it). The header written for the type \<open>'text'\<close> and the
  sizes 5 and 5 is parsed back with the same type and sizes, and with the version
  \<open>0.3.0\<close>, where the engine's version is \<open>3.0\<close>: the two parts of \<open>3.0\<close> are packed
  into the low two bytes of the version word, and the parser reads three bytes.
\<close>

theorem header_version_mismatch:
  "generateMetadata 0 0 ''text'' 5 5 =
     Inr [0x48, 0x4D, 0x51, 0x43, 0, 0, 3, 0, 0, 0, 0, 1, 0, 0, 0, 5, 0, 0, 0, 5,
          0, 0, 0, 0, 0, 0, 0, 0, 0, 0, 0, 0] \<and>
   parseMetadata [0x48, 0x4D, 0x51, 0x43, 0, 0, 3, 0, 0, 0, 0, 1, 0, 0, 0, 5, 0, 0, 0, 5,
          0, 0, 0, 0, 0, 0, 0, 0, 0, 0, 0, 0] =
     Inr \<lparr>magic = ''484D5143'', version = ''0.3.0'', dataType = ''text'', originalSize = 5,
          compressedSize = 5, timestamp = 0, meta_id = 0\<rparr> \<and>
   coreVersion = ''3.0''"
proof -
  have "generateMetadata 0 0 ''text'' 5 5 =
     Inr [0x48, 0x4D, 0x51, 0x43, 0, 0, 3, 0, 0, 0, 0, 1, 0, 0, 0, 5, 0, 0, 0, 5,
          0, 0, 0, 0, 0, 0, 0, 0, 0, 0, 0, 0]"
    by (simp add: generateMetadata_bytes be32_def)
  moreover have "parseMetadata [0x48, 0x4D, 0x51, 0x43, 0, 0, 3, 0, 0, 0, 0, 1, 0, 0, 0, 5, 0, 0, 0, 5,
          0, 0, 0, 0, 0, 0, 0, 0, 0, 0, 0, 0] =
     Inr \<lparr>magic = ''484D5143'', version = ''0.3.0'', dataType = ''text'', originalSize = 5,
          compressedSize = 5, timestamp = 0, meta_id = 0\<rparr>"
    by (simp add: parseMetadata_def getUint32_def byteAt_def toStringHex_magic toStringDec_small)
  ultimately show ?thesis by (simp add: coreVersion_def)
qed

section \<open>The parser rejects no header\<close>

text \<open>
  Claim C5, as stated: a header whose signature differs from the magic constant is rejected
  with \<open>BadMagic\<close>, and one whose type code is not enumerated with
  \<open>UnknownContentType\<close>. Thirty-two zero bytes have signature 0 and type code 0, and
  \<open>parseMetadata\<close> returns a record for them.
\<close>

theorem parseMetadata_zeros:
  "parseMetadata (replicate 32 0) =
     Inr \<lparr>magic = ''0'', version = ''0.0.0'', dataType = ''unknown'', originalSize = 0,
          compressedSize = 0, timestamp = 0, meta_id = 0\<rparr>"
  by (simp add: parseMetadata_def getUint32_def byteAt_def toStringHex.simps toStringDec_small)

text \<open>
  Claim C5, amended. \<open>parseMetadata\<close> succeeds on every 32-byte input. It reports the
  signature word as an upper-case hexadecimal string, without comparing it with the magic
  constant, and it reports the data type \<open>'unknown'\<close> for every type code other than
  1, 2, 3 and 4.
\<close>

theorem parseMetadata_accepts:
  "length bytes = 32 \<Longrightarrow>
   \<exists>m. parseMetadata bytes = Inr m \<and>
       magic m = toStringHex (getUint32 bytes 0) \<and>
       dataType m = (if getUint32 bytes 8 \<in> {1, 2, 3, 4}
                     then [''unknown'', ''text'', ''image'', ''audio'', ''binary''] ! getUint32 bytes 8
                     else ''unknown'')"
proof -
  assume l: "length bytes = 32"
  show ?thesis
  proof (cases "getUint32 bytes 8 \<in> {1, 2, 3, 4}")
    case True
    with l show ?thesis by (auto simp: parseMetadata_def)
  next
    case False
    show ?thesis
    proof (cases "getUint32 bytes 8 < 5")
      case True
      with False have "getUint32 bytes 8 = 0" by auto
      with l show ?thesis by (simp add: parseMetadata_def)
    next
      case large: False
      with False l show ?thesis by (simp add: parseMetadata_def)
    qed
  qed
qed

theorem parseMetadata_accepts_witness:
  "length (replicate 32 (7 :: byte)) = 32 \<and>
   (\<exists>m. parseMetadata (replicate 32 7) = Inr m \<and>
        magic m = toStringHex (getUint32 (replicate 32 7) 0) \<and>
        dataType m = ''unknown'')"
proof -
  have l: "length (replicate 32 (7 :: byte)) = 32" by simp
  have "getUint32 (replicate 32 7) 8 = 117901063"
    by (simp add: getUint32_def byteAt_def)
  with parseMetadata_accepts [OF l] l show ?thesis by simp
qed

section \<open>Matrix size\<close>

lemma ceilSqrt_from_spec:
  "\<forall>j<k. j * j < n \<Longrightarrow>
   n \<le> ceilSqrt_from n k * ceilSqrt_from n k \<and> (\<forall>j<ceilSqrt_from n k. j * j < n)"
proof (induction n k rule: ceilSqrt_from.induct)
  case (1 n k)
  show ?case
  proof (cases "k * k < n")
    case True
    with "1.prems" have "\<forall>j<k + 1. j * j < n" by (auto simp: less_Suc_eq)
    from "1.IH" [OF True this] True show ?thesis
      by (subst (1 2 3) ceilSqrt_from.simps) simp
  next
    case False
    with "1.prems" show ?thesis
      by (subst (1 2 3) ceilSqrt_from.simps) simp
  qed
qed

lemma ceilSqrt_upper: "n \<le> ceilSqrt n * ceilSqrt n"
  and ceilSqrt_least: "j < ceilSqrt n \<Longrightarrow> j * j < n"
  using ceilSqrt_from_spec [of 0 n] by (auto simp: ceilSqrt_def)

lemma ceilSqrt_mono: "m \<le> n \<Longrightarrow> ceilSqrt m \<le> ceilSqrt n"
proof (rule ccontr)
  assume mn: "m \<le> n" and "\<not> ceilSqrt m \<le> ceilSqrt n"
  then have "ceilSqrt n < ceilSqrt m" by simp
  then have "ceilSqrt n * ceilSqrt n < m" by (rule ceilSqrt_least)
  with mn ceilSqrt_upper [of n] show False by simp
qed

text \<open>The counting loop computes the ceiling of the real square root.\<close>

lemma ceilSqrt_real: "int (ceilSqrt n) = \<lceil>sqrt (real n)\<rceil>"
proof -
  let ?r = "ceilSqrt n"
  have up: "sqrt (real n) \<le> real ?r"
  proof -
    have "real n \<le> real ?r * real ?r"
      using ceilSqrt_upper [of n] by (metis of_nat_le_iff of_nat_mult)
    then have "sqrt (real n) \<le> sqrt (real ?r * real ?r)" by (rule real_sqrt_le_mono)
    then show ?thesis by simp
  qed
  have low: "real ?r - 1 < sqrt (real n)"
  proof (cases "?r = 0")
    case True
    have "(- 1 :: real) < 0" by simp
    also have "0 \<le> sqrt (real n)" by simp
    finally show ?thesis using True by simp
  next
    case False
    then have "(?r - 1) * (?r - 1) < n" by (intro ceilSqrt_least) simp
    then have "real (?r - 1) * real (?r - 1) < real n"
      by (metis of_nat_less_iff of_nat_mult)
    then have "sqrt (real (?r - 1) * real (?r - 1)) < sqrt (real n)"
      by (rule real_sqrt_less_mono)
    with False show ?thesis by (simp add: of_nat_diff)
  qed
  have "\<lceil>sqrt (real n)\<rceil> = int ?r"
    by (rule ceiling_unique) (use up low in simp_all)
  then show ?thesis by simp
qed

lemma modulesNeeded_real: "int ((n * 8 + 31) div 32) = \<lceil>real (n * 8) / 32\<rceil>"
proof -
  have "\<lceil>real (n * 8) / 32\<rceil> = \<lceil>real_of_int (int (n * 8)) / real_of_int 32\<rceil>" by simp
  also have "\<dots> = - ((- int (n * 8)) div 32)"
    by (simp only: ceiling_divide_eq_div)
  also have "\<dots> = int ((n * 8 + 31) div 32)" 
    by (simp add: zdiv_int)
  finally show ?thesis by simp
qed

text \<open>
  Claim C7. The matrix side is monotone in the payload length, and it is at least 256 and
  at most 4096 for every payload length. (\<open>ceilSqrt\<close> is the exact ceiling of the
  square root, see \<open>ceilSqrt_real\<close>; the floating-point square root of the code rounds
  to the same integer wherever the result is below the cap of 4096.)
\<close>

theorem calculateMatrixSize_monotone_bounded:
  "(m \<le> n \<longrightarrow> calculateMatrixSize m \<le> calculateMatrixSize n) \<and>
   256 \<le> calculateMatrixSize n \<and> calculateMatrixSize n \<le> 4096"
proof -
  have "calculateMatrixSize m \<le> calculateMatrixSize n" if "m \<le> n"
  proof -
    from that have "(m * 8 + 31) div 32 \<le> (n * 8 + 31) div 32"
      by (intro div_le_mono) simp
    then have "ceilSqrt ((m * 8 + 31) div 32) \<le> ceilSqrt ((n * 8 + 31) div 32)"
      by (rule ceilSqrt_mono)
    then show ?thesis
      by (simp add: calculateMatrixSize_def maxSize_def Let_def)
  qed
  then show ?thesis by (simp add: calculateMatrixSize_def maxSize_def Let_def)
qed

lemma ceilSqrt_unique:
  assumes "n \<le> k * k" "k = 0 \<or> (k - 1) * (k - 1) < n"
  shows "ceilSqrt n = k"
proof (rule antisym)
  show "ceilSqrt n \<le> k"
  proof (rule ccontr)
    assume "\<not> ceilSqrt n \<le> k"
    then have "k * k < n" by (intro ceilSqrt_least) simp
    with assms(1) show False by simp
  qed
  show "k \<le> ceilSqrt n"
  proof (rule ccontr)
    assume "\<not> k \<le> ceilSqrt n"
    then have "ceilSqrt n \<le> k - 1" "k \<noteq> 0" by simp_all
    then have "ceilSqrt n * ceilSqrt n \<le> (k - 1) * (k - 1)" "(k - 1) * (k - 1) < n"
      using assms(2) by (simp_all add: mult_le_mono)
    with ceilSqrt_upper [of n] show False by simp
  qed
qed

lemma ceilSqrt_50000: "ceilSqrt 50000 = 224"
  by (rule ceilSqrt_unique) simp_all

lemma ceilSqrt_0: "ceilSqrt 0 = 0"
  by (rule ceilSqrt_unique) simp_all

theorem calculateMatrixSize_monotone_bounded_witness:
  "(0 :: nat) \<le> 200000 \<and> calculateMatrixSize 0 \<le> calculateMatrixSize 200000 \<and>
   calculateMatrixSize 0 = 256 \<and> calculateMatrixSize 200000 = 274"
proof -
  have a: "calculateMatrixSize 0 = 256" "calculateMatrixSize 200000 = 274"
    by (simp_all add: calculateMatrixSize_def maxSize_def Let_def ceilSqrt_50000 ceilSqrt_0)
  from calculateMatrixSize_monotone_bounded [of 0 200000] a show ?thesis by simp
qed

section \<open>Padding modules\<close>

text \<open>
  Claim C9. The grid has \<open>width * height\<close> modules, module \<open>i\<close> is \<open>moduleAt bytes i\<close>,
  a function of the byte stream and the index alone, and every module whose first byte
  index \<open>4 * i\<close> is beyond the stream is the fixed pattern
  \<open>(7 i mod 256, 13 i mod 256, 19 i mod 256, 255)\<close>, a function of the index alone.
\<close>

theorem bytesToColorModules_padding:
  "length (bytesToColorModules bytes w h) = w * h \<and>
   (\<forall>i<w * h. bytesToColorModules bytes w h ! i = moduleAt bytes i \<and>
      (length bytes \<le> i * 4 \<longrightarrow>
         moduleAt bytes i = \<lparr>module_r = (i * 7) mod 256, module_g = (i * 13) mod 256,
                              module_b = (i * 19) mod 256, module_a = 255\<rparr>))"
  by (simp add: bytesToColorModules_def moduleAt_def Let_def)

theorem bytesToColorModules_padding_witness:
  "(2 :: nat) < 2 * 2 \<and> length [1 :: byte, 2, 3, 0, 5] \<le> 2 * 4 \<and>
   bytesToColorModules [1, 2, 3, 0, 5] 2 2 ! 2 =
     \<lparr>module_r = 14, module_g = 26, module_b = 38, module_a = 255\<rparr>"
  using bytesToColorModules_padding [of "[1, 2, 3, 0, 5]" 2 2] by simp

end
